theory Spec2Isabelle
  imports Main "HOL-Library.Word" "HOL-Library.Char_ord" "HOL-Library.List_Lexorder"
begin

unbundle bit_operations_syntax

section \<open>Machine types and byte order\<close>

type_synonym u8 = "8 word"
type_synonym u16 = "16 word"
type_synonym u32 = "32 word"
type_synonym size_t = "64 word"

text \<open>
  \<open>htonl\<close>, \<open>ntohl\<close>, \<open>htons\<close> and \<open>ntohs\<close> come from the C library: the identity on a
  big-endian host, a byte swap on a little-endian one. The host's byte order is a
  parameter of every function of \<open>cache.h\<close> that converts.
\<close>

datatype byte_order = LittleEndian | BigEndian

definition bswap16 :: "u16 \<Rightarrow> u16" where
  "bswap16 w = push_bit 8 w OR drop_bit 8 w"

definition bswap32 :: "u32 \<Rightarrow> u32" where
  "bswap32 w =
     push_bit 24 w OR push_bit 8 (w AND 0xFF00) OR (drop_bit 8 w AND 0xFF00) OR drop_bit 24 w"

definition htons :: "byte_order \<Rightarrow> u16 \<Rightarrow> u16" where
  "htons h w = (case h of BigEndian \<Rightarrow> w | LittleEndian \<Rightarrow> bswap16 w)"

definition ntohs :: "byte_order \<Rightarrow> u16 \<Rightarrow> u16" where
  "ntohs h w = (case h of BigEndian \<Rightarrow> w | LittleEndian \<Rightarrow> bswap16 w)"

definition htonl :: "byte_order \<Rightarrow> u32 \<Rightarrow> u32" where
  "htonl h w = (case h of BigEndian \<Rightarrow> w | LittleEndian \<Rightarrow> bswap32 w)"

definition ntohl :: "byte_order \<Rightarrow> u32 \<Rightarrow> u32" where
  "ntohl h w = (case h of BigEndian \<Rightarrow> w | LittleEndian \<Rightarrow> bswap32 w)"

section \<open>File modes (\<open>cache.h\<close>, lines 28-45 and 122-146)\<close>

text \<open>
  The \<open>S_IFxxx\<close> values and the \<open>S_ISxxx\<close> tests are those of \<open><sys/stat.h>\<close>, which
  \<open>cache.h\<close> relies on (``everybody shares the same bit representation''): octal
  0170000, 0100000, 0120000 and 0040000. \<open>S_IFGITLINK\<close> is octal 0160000.
\<close>

definition S_IFMT :: u32 where "S_IFMT = 0xF000"
definition S_IFREG :: u32 where "S_IFREG = 0x8000"
definition S_IFLNK :: u32 where "S_IFLNK = 0xA000"
definition S_IFDIR :: u32 where "S_IFDIR = 0x4000"
definition S_IFGITLINK :: u32 where "S_IFGITLINK = 0xE000"

definition S_ISREG :: "u32 \<Rightarrow> bool" where
  "S_ISREG m \<longleftrightarrow> m AND S_IFMT = S_IFREG"

definition S_ISLNK :: "u32 \<Rightarrow> bool" where
  "S_ISLNK m \<longleftrightarrow> m AND S_IFMT = S_IFLNK"

definition S_ISDIR :: "u32 \<Rightarrow> bool" where
  "S_ISDIR m \<longleftrightarrow> m AND S_IFMT = S_IFDIR"

definition S_ISGITLINK :: "u32 \<Rightarrow> bool" where
  "S_ISGITLINK m \<longleftrightarrow> m AND S_IFMT = S_IFGITLINK"

text \<open>Octal 0100 is 0x40, 0755 is 0x1ED, 0644 is 0x1A4 and 0666 is 0x1B6.\<close>

definition ce_permissions :: "u32 \<Rightarrow> u32" where
  "ce_permissions mode = (if mode AND 0x40 \<noteq> 0 then 0x1ED else 0x1A4)"

definition create_ce_mode :: "byte_order \<Rightarrow> u32 \<Rightarrow> u32" where
  "create_ce_mode h mode =
     (if S_ISLNK mode then htonl h S_IFLNK
      else if S_ISDIR mode \<or> S_ISGITLINK mode then htonl h S_IFGITLINK
      else htonl h (S_IFREG OR ce_permissions mode))"

definition canon_mode :: "u32 \<Rightarrow> u32" where
  "canon_mode mode =
     (if S_ISREG mode then S_IFREG OR ce_permissions mode
      else if S_ISLNK mode then S_IFLNK
      else if S_ISDIR mode then S_IFDIR
      else S_IFGITLINK)"

datatype object_type =
    OBJ_BAD | OBJ_NONE | OBJ_COMMIT | OBJ_TREE | OBJ_BLOB | OBJ_TAG
  | OBJ_OFS_DELTA | OBJ_REF_DELTA | OBJ_MAX

definition object_type :: "u32 \<Rightarrow> object_type" where
  "object_type mode =
     (if S_ISDIR mode then OBJ_TREE
      else if S_ISGITLINK mode then OBJ_COMMIT
      else OBJ_BLOB)"

section \<open>Cache entries (\<open>cache.h\<close>, lines 79-120 and 131-148)\<close>

record cache_time =
  sec :: u32
  nsec :: u32

text \<open>
  \<open>struct cache_entry\<close>. The flexible array \<open>name\<close> is the entry's path, without its
  terminating NUL; \<open>sha1\<close> is the 20-byte array.
\<close>

record cache_entry =
  ce_ctime :: cache_time
  ce_mtime :: cache_time
  ce_dev :: u32
  ce_ino :: u32
  ce_mode :: u32
  ce_uid :: u32
  ce_gid :: u32
  ce_size :: u32
  sha1 :: "u8 list"
  ce_flags :: u16
  name :: string

definition CE_NAMEMASK :: u32 where "CE_NAMEMASK = 0x0fff"
definition CE_STAGEMASK :: u32 where "CE_STAGEMASK = 0x3000"
definition CE_UPDATE :: u32 where "CE_UPDATE = 0x4000"
definition CE_VALID :: u32 where "CE_VALID = 0x8000"
definition CE_STAGESHIFT :: nat where "CE_STAGESHIFT = 12"

text \<open>
  \<open>create_ce_flags(len, stage)\<close>: both arguments are \<open>int\<close>s; \<open>htons\<close> takes a 16-bit
  value, so the result of the bitwise or is truncated to its low 16 bits.
\<close>

definition create_ce_flags :: "byte_order \<Rightarrow> u32 \<Rightarrow> u32 \<Rightarrow> u16" where
  "create_ce_flags h len stage = htons h (ucast (len OR push_bit CE_STAGESHIFT stage))"

definition ce_namelen :: "byte_order \<Rightarrow> cache_entry \<Rightarrow> u32" where
  "ce_namelen h ce = CE_NAMEMASK AND ucast (ntohs h (ce_flags ce))"

definition ce_stage :: "byte_order \<Rightarrow> cache_entry \<Rightarrow> u32" where
  "ce_stage h ce = drop_bit CE_STAGESHIFT (CE_STAGEMASK AND ucast (ntohs h (ce_flags ce)))"

text \<open>
  The two configuration globals that \<open>ce_mode_from_stat\<close> reads
  (\<open>extern int trust_executable_bit, has_symlinks\<close>), as truth values.
\<close>

record environment =
  trust_executable_bit :: bool
  has_symlinks :: bool

text \<open>The entry pointer may be NULL: \<open>None\<close>.\<close>

definition ce_mode_from_stat ::
  "byte_order \<Rightarrow> environment \<Rightarrow> cache_entry option \<Rightarrow> u32 \<Rightarrow> u32" where
  "ce_mode_from_stat h env ce mode =
     (if \<not> has_symlinks env \<and> S_ISREG mode \<and>
         (case ce of None \<Rightarrow> False | Some e \<Rightarrow> S_ISLNK (ntohl h (ce_mode e)))
      then ce_mode (the ce)
      else if \<not> trust_executable_bit env \<and> S_ISREG mode then
        (if (case ce of None \<Rightarrow> False | Some e \<Rightarrow> S_ISREG (ntohl h (ce_mode e)))
         then ce_mode (the ce)
         else create_ce_mode h 0x1B6)
      else create_ce_mode h mode)"

text \<open>
  \<open>offsetof(struct cache_entry, name)\<close>: two \<open>cache_time\<close>s of two 4-byte fields each,
  six 4-byte fields, the 20-byte digest and the 2-byte flags, with no padding in between.
\<close>

definition offsetof_cache_entry_name :: size_t where
  "offsetof_cache_entry_name = 2 * (4 + 4) + 6 * 4 + 20 + 2"

text \<open>
  \<open>cache_entry_size(len)\<close>: \<open>offsetof\<close> has type \<open>size_t\<close>, so the \<open>int\<close> length and the
  \<open>int\<close> constant \<open>~7\<close> are converted to \<open>size_t\<close> (sign-extended) and the arithmetic is
  unsigned, modulo \<open>2 ^ 64\<close>.
\<close>

definition cache_entry_size :: "u32 \<Rightarrow> size_t" where
  "cache_entry_size len = (offsetof_cache_entry_name + scast len + 8) AND NOT 7"

section \<open>Object identifiers (\<open>cache.h\<close>, lines 352-360)\<close>

text \<open>
  \<open>memcmp\<close> of the C library on two buffers and a count: the difference of the first pair
  of bytes that differ (read as unsigned), 0 when the first \<open>n\<close> bytes agree. Reading
  past the end of a buffer is undefined in C; here it is \<open>None\<close>.
\<close>

fun memcmp :: "u8 list \<Rightarrow> u8 list \<Rightarrow> nat \<Rightarrow> int option" where
  "memcmp s1 s2 0 = Some 0"
| "memcmp (a # s1) (b # s2) (Suc n) = (if a = b then memcmp s1 s2 n else Some (uint a - uint b))"
| "memcmp s1 s2 (Suc n) = None"

text \<open>
  Modelled from the spec: \<open>null_sha1\<close> is declared \<open>extern\<close> in \<open>cache.h\<close> and defined
  elsewhere; the spec calls it the designated all-zero value.
\<close>

definition null_sha1 :: "u8 list" where
  "null_sha1 = replicate 20 0"

definition is_null_sha1 :: "u8 list \<Rightarrow> int option" where
  "is_null_sha1 s =
     (case memcmp s null_sha1 20 of None \<Rightarrow> None | Some r \<Rightarrow> Some (if r = 0 then 1 else 0))"

definition hashcmp :: "u8 list \<Rightarrow> u8 list \<Rightarrow> int option" where
  "hashcmp s1 s2 = memcmp s1 s2 20"

section \<open>Path quoting (\<open>wt-status.c\<close>, lines 85-129)\<close>

text \<open>
  A C string is the list of its bytes before the terminating NUL. Reading it at its
  length gives the terminator.
\<close>

definition NUL :: char where "NUL = CHR 0x00"

definition cstr_at :: "string \<Rightarrow> nat \<Rightarrow> char" where
  "cstr_at s i = (if i < length s then s ! i else NUL)"

definition strlen :: "string \<Rightarrow> nat" where
  "strlen s = length (takeWhile (\<lambda>c. c \<noteq> NUL) s)"

text \<open>
  The \<open>while\<close> loop of \<open>quote_path\<close> that strips the leading directories \<open>in\<close> shares
  with \<open>prefix\<close>. Advancing a pointer drops the bytes before it. The result is the
  remaining \<open>prefix\<close>, \<open>in\<close> and \<open>len\<close>.
\<close>

function strip_common :: "string \<Rightarrow> string \<Rightarrow> int \<Rightarrow> nat \<Rightarrow> string \<times> string \<times> int" where
  "strip_common pfx inp len off =
     (if cstr_at pfx off \<noteq> NUL \<and> int off < len \<and> cstr_at pfx off = cstr_at inp off
      then (if cstr_at pfx off = CHR ''/''
            then strip_common (drop (off + 1) pfx) (drop (off + 1) inp) (len - int (off + 1)) 0
            else strip_common pfx inp len (off + 1))
      else (pfx, inp, len))"
  by pat_completeness auto
termination
  by (relation "measure (\<lambda>(pfx, inp, len, off). length pfx - off)")
     (auto simp add: cstr_at_def split: if_splits)

declare strip_common.simps [simp del]

text \<open>The \<open>for\<close> loop over the rest of \<open>prefix\<close>: one \<open>../\<close> for each slash.\<close>

fun add_dotdots :: "string \<Rightarrow> string \<Rightarrow> string" where
  "add_dotdots [] out = out"
| "add_dotdots (c # cs) out =
     (if c = NUL then out
      else add_dotdots cs (if c = CHR ''/'' then out @ ''../'' else out))"

text \<open>
  The \<open>for\<close> loop over the \<open>len\<close> bytes of \<open>in\<close>, given here the bytes it reads.
  The escapes are a backslash (0x5C) and a letter; newline is 0x0A, carriage return 0x0D.
\<close>

fun quote_bytes :: "string \<Rightarrow> string \<Rightarrow> string" where
  "quote_bytes [] out = out"
| "quote_bytes (ch # rest) out =
     quote_bytes rest
       (if ch = CHR 0x0A then out @ [CHR 0x5C, CHR ''n'']
        else if ch = CHR 0x0D then out @ [CHR 0x5C, CHR ''r'']
        else out @ [ch])"

text \<open>
  \<open>quote_path(in, len, out, prefix)\<close>. The buffer \<open>out\<close> is reset first
  (\<open>strbuf_setlen(out, 0)\<close>), so the result is its new contents. \<open>prefix\<close> may be NULL.
  The bytes readable at \<open>in\<close> are the string and its terminator; a \<open>len\<close> beyond them
  makes the C code read out of bounds: \<open>None\<close>.
\<close>

definition quote_path :: "string \<Rightarrow> int \<Rightarrow> string option \<Rightarrow> string option" where
  "quote_path inp len pfx =
     (let len1 = (if len < 0 then int (strlen inp) else len) in
      if int (length inp) + 1 < len1 then None
      else
        let (inp', len', out) =
              (case pfx of
                 None \<Rightarrow> (inp, len1, [])
               | Some p \<Rightarrow>
                   (case strip_common p inp len1 0 of
                      (p', inp', len') \<Rightarrow> (inp', len', add_dotdots p' [])));
            out' = quote_bytes (take (nat len') (inp' @ [NUL])) out
        in Some (if out' = [] then ''./'' else out'))"

section \<open>The index and its lookup (\<open>cache.h\<close>, lines 150-157 and 266)\<close>

text \<open>
  \<open>struct index_state\<close>: \<open>cache_nr\<close> is the length of \<open>cache\<close>; the allocation size, the
  tree cache and the mapping play no role here.
\<close>

record index_state =
  cache :: "cache_entry list"
  cache_changed :: u32
  timestamp :: int

text \<open>
  Modelled from the spec: the sort key of an entry. \<open>read-cache.c\<close>, which defines
  \<open>cache_name_compare\<close> and \<open>index_name_pos\<close>, is not among the sources. The spec:
  entries are sorted by name, lexicographic on raw bytes, the shorter prefix first, and
  on equal names by stage ascending.
\<close>

definition entry_key :: "byte_order \<Rightarrow> cache_entry \<Rightarrow> string \<times> nat" where
  "entry_key h ce = (name ce, unat (ce_stage h ce))"

text \<open>
  Modelled from the spec: the comparison of two (name, stage) keys, \<open>cache_name_compare\<close>
  of \<open>read-cache.c\<close>. Names compare as raw byte sequences, a proper prefix first; equal
  names compare by stage.
\<close>

definition key_less :: "string \<times> nat \<Rightarrow> string \<times> nat \<Rightarrow> bool" where
  "key_less a b \<longleftrightarrow> fst a < fst b \<or> (fst a = fst b \<and> snd a < snd b)"

text \<open>
  Modelled from the spec: the invariant of the index state that its entries are strictly
  sorted by (name, stage), so that no two share both.
\<close>

definition index_sorted :: "byte_order \<Rightarrow> index_state \<Rightarrow> bool" where
  "index_sorted h istate \<longleftrightarrow> sorted_wrt key_less (map (entry_key h) (cache istate))"

text \<open>
  Modelled from the spec: the loop of \<open>index_name_pos\<close>, which is declared in \<open>cache.h\<close>
  and defined in \<open>read-cache.c\<close>. The spec: lookup returns a non-negative index if the
  name is found at stage 0, or the bitwise complement of the insertion point if absent,
  by binary search over the sorted vector.
\<close>

function name_pos_search :: "(string \<times> nat) list \<Rightarrow> string \<times> nat \<Rightarrow> nat \<Rightarrow> nat \<Rightarrow> int" where
  "name_pos_search ks k first lst =
     (if first < lst then
        (let next = (lst + first) div 2 in
         if k = ks ! next then int next
         else if key_less k (ks ! next) then name_pos_search ks k first next
         else name_pos_search ks k (next + 1) lst)
      else NOT (int first))"
  by pat_completeness auto
termination
  by (relation "measure (\<lambda>(ks, k, first, lst). lst - first)") auto

declare name_pos_search.simps [simp del]

text \<open>
  Modelled from the spec: \<open>index_name_pos(istate, name, namelen)\<close>, the search for the
  first \<open>namelen\<close> bytes of \<open>name\<close> at stage 0 over the whole index.
\<close>

definition index_name_pos :: "byte_order \<Rightarrow> index_state \<Rightarrow> string \<Rightarrow> int \<Rightarrow> int" where
  "index_name_pos h istate nm namelen =
     name_pos_search (map (entry_key h) (cache istate)) (take (nat namelen) nm, 0)
       0 (length (cache istate))"

text \<open>
  Modelled from the spec: the position at which an add places an entry.
  \<open>add_index_entry\<close> is defined in \<open>read-cache.c\<close>; the spec keeps the sequence sorted
  by (name, stage), so the new entry goes after every entry that sorts before it.
\<close>

definition insertion_point :: "byte_order \<Rightarrow> index_state \<Rightarrow> string \<times> nat \<Rightarrow> nat" where
  "insertion_point h istate k =
     length (filter (\<lambda>ce. key_less (entry_key h ce) k) (cache istate))"

text \<open>
  Modelled from the spec: the index with an entry placed at a position, as an add does.
\<close>

definition insert_at :: "nat \<Rightarrow> cache_entry \<Rightarrow> index_state \<Rightarrow> index_state" where
  "insert_at pos ce istate =
     istate\<lparr>cache := take pos (cache istate) @ [ce] @ drop pos (cache istate)\<rparr>"

section \<open>Untracked files (\<open>wt-status.c\<close>, lines 275-319)\<close>


datatype slot = WT_STATUS_HEADER | WT_STATUS_UPDATED | WT_STATUS_CHANGED | WT_STATUS_UNTRACKED











section \<open>Example data\<close>

text \<open>
  An entry with the given mode, stage and name, its flags built by \<open>create_ce_flags\<close>
  and its other fields zero: the notation for the concrete entries of the examples.
\<close>

abbreviation example_entry :: "byte_order \<Rightarrow> u32 \<Rightarrow> u32 \<Rightarrow> string \<Rightarrow> cache_entry" where
  "example_entry h mode stage nm \<equiv>
     \<lparr>ce_ctime = \<lparr>sec = 0, nsec = 0\<rparr>, ce_mtime = \<lparr>sec = 0, nsec = 0\<rparr>,
      ce_dev = 0, ce_ino = 0, ce_mode = htonl h mode, ce_uid = 0, ce_gid = 0, ce_size = 0,
      sha1 = replicate 20 0, ce_flags = create_ce_flags h (of_nat (length nm)) stage,
      name = nm\<rparr>"

abbreviation example_index :: "byte_order \<Rightarrow> index_state" where
  "example_index h \<equiv>
     \<lparr>cache = [example_entry h 0x81A4 0 ''a'', example_entry h 0x81A4 1 ''c'',
               example_entry h 0x81A4 2 ''c''],
      cache_changed = 0, timestamp = 0\<rparr>"


section \<open>Byte order: helper facts\<close>

lemma bswap16_bswap16: "bswap16 (bswap16 w) = w"
  unfolding bswap16_def
  by (rule bit_word_eqI) (auto simp add: bit_simps)

lemma mask_FF00: "(0xFF00 :: u32) = push_bit 8 (mask 8)"
  by (simp add: mask_eq_exp_minus_1)

lemma bit_bswap32:
  "bit (bswap32 w) n \<longleftrightarrow>
     (if n < 8 then bit w (n + 24)
      else if n < 16 then bit w (n + 8)
      else if n < 24 then bit w (n - 8)
      else if n < 32 then bit w (n - 24) else False)"
  unfolding bswap32_def mask_FF00
  apply (simp add: bit_simps)
  apply (auto dest: bit_imp_le_length simp add: add.commute)
  done

lemma bswap32_bswap32: "bswap32 (bswap32 w) = w"
proof (rule bit_word_eqI)
  fix n assume n: "n < LENGTH(32)"
  consider "n < 8" | "8 \<le> n" "n < 16" | "16 \<le> n" "n < 24" | "24 \<le> n" "n < 32"
    using n by force
  then show "bit (bswap32 (bswap32 w)) n = bit w n"
    by cases (auto simp add: bit_bswap32)
qed

lemma ntohs_htons: "ntohs h (htons h w) = w"
  by (cases h) (simp_all add: ntohs_def htons_def bswap16_bswap16)

lemma ntohl_htonl: "ntohl h (htonl h w) = w"
  by (cases h) (simp_all add: ntohl_def htonl_def bswap32_bswap32)

lemma htonl_ntohl: "htonl h (ntohl h w) = w"
  by (cases h) (simp_all add: ntohl_def htonl_def bswap32_bswap32)

section \<open>Canonical modes\<close>

lemmas mode_defs =
  S_IFMT_def S_IFREG_def S_IFLNK_def S_IFDIR_def S_IFGITLINK_def
  S_ISREG_def S_ISLNK_def S_ISDIR_def S_ISGITLINK_def

text \<open>
  Claim C1, as stated, fails: \<open>canon_mode\<close> has a branch of its own for directories and
  maps a directory mode to \<open>S_IFDIR\<close> (octal 040000), which is none of regular file
  0644, regular file 0755, symlink and gitlink.
\<close>

theorem C1_canon_mode_directory_counterexample:
  "canon_mode 0x41ED = 0x4000 \<and>
   canon_mode 0x41ED \<notin> {S_IFREG OR 0x1A4, S_IFREG OR 0x1ED, S_IFLNK, S_IFGITLINK}"
  by (simp add: canon_mode_def mode_defs)

text \<open>
  Claim C1, amended: for every raw mode, \<open>create_ce_mode\<close> yields, read back from
  network byte order, one of regular file 0644, regular file 0755, symlink and gitlink
  (a directory mode becomes a gitlink); \<open>canon_mode\<close> yields one of these four for every
  mode that is not a directory mode, and \<open>S_IFDIR\<close> for a directory mode.
\<close>

theorem C1_canonical_modes:
  "ntohl h (create_ce_mode h m) \<in> {S_IFREG OR 0x1A4, S_IFREG OR 0x1ED, S_IFLNK, S_IFGITLINK} \<and>
   (\<not> S_ISDIR m \<longrightarrow>
      canon_mode m \<in> {S_IFREG OR 0x1A4, S_IFREG OR 0x1ED, S_IFLNK, S_IFGITLINK}) \<and>
   (S_ISDIR m \<longrightarrow> canon_mode m = S_IFDIR \<and> ntohl h (create_ce_mode h m) = S_IFGITLINK)"
  by (simp add: create_ce_mode_def canon_mode_def ntohl_htonl ce_permissions_def mode_defs)

theorem C1_canonical_modes_witness:
  "\<not> S_ISDIR 0x81FF \<and> canon_mode 0x81FF = 0x81ED \<and>
   S_ISDIR 0x41ED \<and> canon_mode 0x41ED = S_IFDIR \<and>
   ntohl LittleEndian (create_ce_mode LittleEndian 0x41ED) = S_IFGITLINK"
proof -
  have reg: "\<not> S_ISDIR 0x81FF" and dir: "S_ISDIR 0x41ED"
    by (simp_all add: mode_defs)
  have "canon_mode 0x81FF \<in> {S_IFREG OR 0x1A4, S_IFREG OR 0x1ED, S_IFLNK, S_IFGITLINK}"
    using C1_canonical_modes [of LittleEndian "0x81FF"] reg by blast
  moreover have "canon_mode 0x81FF = 0x81ED"
    by (simp add: canon_mode_def ce_permissions_def mode_defs)
  moreover have "canon_mode 0x41ED = S_IFDIR \<and>
      ntohl LittleEndian (create_ce_mode LittleEndian 0x41ED) = S_IFGITLINK"
    using C1_canonical_modes [of LittleEndian "0x41ED"] dir by blast
  ultimately show ?thesis using reg dir by blast
qed

section \<open>Gitlinks\<close>

lemma format_bits_gitlink:
  "(m :: u32) AND 0xF000 = 0xE000 \<longleftrightarrow> bit m 15 \<and> bit m 14 \<and> bit m 13 \<and> \<not> bit m 12"
proof -
  have a: "(0xF000 :: u32) = push_bit 12 (mask 4)" by (simp add: mask_eq_exp_minus_1)
  have b: "(0xE000 :: u32) = push_bit 13 (mask 3)" by (simp add: mask_eq_exp_minus_1)
  show ?thesis
    unfolding a b
    apply (simp add: bit_eq_iff bit_simps)
    apply (rule iffI)
    subgoal premises p
      using p[rule_format, of 15] p[rule_format, of 14] p[rule_format, of 13]
        p[rule_format, of 12] by simp
    subgoal by (auto simp add: numeral_eq_Suc less_Suc_eq)
    done
qed

text \<open>
  Claim C8: a gitlink is mode octal 0160000 (0xE000). \<open>S_ISGITLINK m\<close> holds exactly
  when the format bits of \<open>m\<close> (those of \<open>S_IFMT\<close>, bits 12 to 15) are 0160000, that is
  bits 15, 14 and 13 set and bit 12 clear; and \<open>object_type\<close> of a gitlink mode is
  \<open>OBJ_COMMIT\<close>, neither a tree nor a blob.
\<close>

theorem C8_gitlink:
  "S_IFGITLINK = 0xE000 \<and>
   (S_ISGITLINK m \<longleftrightarrow> m AND S_IFMT = 0xE000) \<and>
   (S_ISGITLINK m \<longleftrightarrow> bit m 15 \<and> bit m 14 \<and> bit m 13 \<and> \<not> bit m 12) \<and>
   (S_ISGITLINK m \<longrightarrow> object_type m = OBJ_COMMIT)"
proof -
  have "S_ISGITLINK m \<longleftrightarrow> bit m 15 \<and> bit m 14 \<and> bit m 13 \<and> \<not> bit m 12"
    using format_bits_gitlink [of m] by (simp add: mode_defs)
  moreover have "S_ISGITLINK m \<longrightarrow> object_type m = OBJ_COMMIT"
    by (simp add: object_type_def mode_defs)
  ultimately show ?thesis
    by (simp add: mode_defs)
qed

theorem C8_gitlink_witness:
  "S_ISGITLINK 0xE000 \<and> object_type 0xE000 = OBJ_COMMIT \<and> \<not> S_ISGITLINK 0x41ED"
proof -
  have g: "S_ISGITLINK 0xE000" by (simp add: mode_defs)
  have "object_type 0xE000 = OBJ_COMMIT"
    using C8_gitlink [of "0xE000"] g by blast
  moreover have "\<not> S_ISGITLINK 0x41ED" by (simp add: mode_defs)
  ultimately show ?thesis using g by blast
qed

section \<open>Entry flags\<close>

lemma CE_NAMEMASK_mask: "CE_NAMEMASK = mask 12"
  by (simp add: CE_NAMEMASK_def mask_eq_exp_minus_1)

lemma CE_STAGEMASK_mask: "CE_STAGEMASK = push_bit 12 (mask 2)"
  by (simp add: CE_STAGEMASK_def mask_eq_exp_minus_1)

lemma ce_namelen_create:
  "ce_namelen h (ce\<lparr>ce_flags := create_ce_flags h len stage\<rparr>) = len AND 0xFFF"
proof -
  have "mask 12 AND (ucast (ucast (len OR push_bit 12 stage) :: u16) :: u32) = len AND mask 12"
    by (rule bit_word_eqI) (auto simp add: bit_simps)
  then show ?thesis
    by (simp add: ce_namelen_def create_ce_flags_def ntohs_htons CE_NAMEMASK_mask
        CE_STAGESHIFT_def mask_eq_exp_minus_1)
qed

lemma ce_stage_create:
  "ce_stage h (ce\<lparr>ce_flags := create_ce_flags h len stage\<rparr>) = (stage OR drop_bit 12 len) AND 3"
proof -
  have "drop_bit 12 (push_bit 12 (mask 2) AND
          (ucast (ucast (len OR push_bit 12 stage) :: u16) :: u32))
      = (stage OR drop_bit 12 len) AND mask 2"
    by (rule bit_word_eqI) (auto simp add: bit_simps)
  then show ?thesis
    by (simp add: ce_stage_def create_ce_flags_def ntohs_htons CE_STAGEMASK_mask
        CE_STAGESHIFT_def mask_eq_exp_minus_1)
qed

lemma small_len:
  fixes len :: u32
  assumes "len \<le> 0xFFF"
  shows "len AND 0xFFF = len" and "drop_bit 12 len = 0"
proof -
  have "len < 2 ^ 12" using assms by (simp add: word_le_nat_alt word_less_nat_alt)
  then have m: "len AND mask 12 = len" by (rule less_mask_eq)
  then show "len AND 0xFFF = len" by (simp add: mask_eq_exp_minus_1)
  have "drop_bit 12 (len AND mask 12) = 0"
    by (rule bit_word_eqI) (simp add: bit_simps)
  then show "drop_bit 12 len = 0" by (simp only: m)
qed

lemma small_stage:
  fixes stage :: u32
  assumes "stage \<le> 3"
  shows "stage AND 3 = stage"
proof -
  have "stage < 2 ^ 2" using assms by (simp add: word_le_nat_alt word_less_nat_alt)
  then have "stage AND mask 2 = stage" by (rule less_mask_eq)
  then show ?thesis by (simp add: mask_eq_exp_minus_1)
qed

lemma ce_namelen_flags:
  "ce_flags ce = create_ce_flags h len stage \<Longrightarrow> ce_namelen h ce = len AND 0xFFF"
  using ce_namelen_create [where h = h and ce = ce and len = len and stage = stage]
  by (simp add: ce_namelen_def)

lemma ce_stage_flags:
  "ce_flags ce = create_ce_flags h len stage \<Longrightarrow>
     ce_stage h ce = (stage OR drop_bit 12 len) AND 3"
  using ce_stage_create [where h = h and ce = ce and len = len and stage = stage]
  by (simp add: ce_stage_def)

lemmas example_eval =
  index_sorted_def key_less_def entry_key_def ce_stage_flags ce_namelen_flags less_char_def

text \<open>
  Claim C2, as stated, fails for a name longer than 0xFFF bytes: \<open>create_ce_flags\<close> does
  not clamp. With a length of 0x1000 and stage 0 the entry decodes to a name length of 0,
  not 0xFFF, and to stage 1, not 0.
\<close>

theorem C2_long_name_counterexample:
  "ce_namelen LittleEndian
     ((example_entry LittleEndian 0x81A4 0 ''x'')\<lparr>ce_flags := create_ce_flags LittleEndian 0x1000 0\<rparr>)
     \<noteq> min 0x1000 0xFFF \<and>
   ce_stage LittleEndian
     ((example_entry LittleEndian 0x81A4 0 ''x'')\<lparr>ce_flags := create_ce_flags LittleEndian 0x1000 0\<rparr>)
     \<noteq> 0"
  by (simp add: ce_namelen_def ce_stage_def create_ce_flags_def htons_def ntohs_def
      bswap16_bswap16 CE_NAMEMASK_def CE_STAGEMASK_def CE_STAGESHIFT_def)

text \<open>
  Claim C2, amended: for every name length \<open>len\<close> up to 0xFFF and every stage in 0..3, an
  entry whose flags were built by \<open>create_ce_flags len stage\<close> decodes back so that
  \<open>ce_namelen\<close> yields \<open>len\<close> and \<open>ce_stage\<close> yields the stage. A longer length is not
  clamped: \<open>ce_namelen\<close> yields its low 12 bits, and its bits 12 and 13 are or-ed into the
  stage.
\<close>

theorem C2_flags_roundtrip:
  "ce_namelen h (ce\<lparr>ce_flags := create_ce_flags h len stage\<rparr>) = len AND 0xFFF \<and>
   ce_stage h (ce\<lparr>ce_flags := create_ce_flags h len stage\<rparr>)
     = (stage OR drop_bit 12 len) AND 3 \<and>
   (len \<le> 0xFFF \<and> stage \<le> 3 \<longrightarrow>
      ce_namelen h (ce\<lparr>ce_flags := create_ce_flags h len stage\<rparr>) = len \<and>
      ce_stage h (ce\<lparr>ce_flags := create_ce_flags h len stage\<rparr>) = stage)"
  by (simp add: ce_namelen_create ce_stage_create small_len small_stage)

theorem C2_flags_roundtrip_witness:
  "(6 :: u32) \<le> 0xFFF \<and> (2 :: u32) \<le> 3 \<and>
   ce_namelen LittleEndian
     ((example_entry LittleEndian 0x81A4 0 ''x'')\<lparr>ce_flags := create_ce_flags LittleEndian 6 2\<rparr>) = 6 \<and>
   ce_stage LittleEndian
     ((example_entry LittleEndian 0x81A4 0 ''x'')\<lparr>ce_flags := create_ce_flags LittleEndian 6 2\<rparr>) = 2"
proof -
  have h: "(6 :: u32) \<le> 0xFFF \<and> (2 :: u32) \<le> 3" by simp
  show ?thesis
    using h C2_flags_roundtrip [where h = LittleEndian and len = 6 and stage = 2
        and ce = "example_entry LittleEndian 0x81A4 0 ''x''"]
    by blast
qed

section \<open>Mode from stat\<close>

text \<open>
  Claim C3, as stated, fails: with executability tracking disabled and a regular file on
  disk, an existing entry that is a regular file keeps its mode, so an entry of mode
  0755 yields 0755, not 0644.
\<close>

theorem C3_existing_0755_counterexample:
  "\<not> trust_executable_bit \<lparr>trust_executable_bit = False, has_symlinks = True\<rparr> \<and>
   S_ISREG 0x81A4 \<and>
   ce_mode_from_stat LittleEndian \<lparr>trust_executable_bit = False, has_symlinks = True\<rparr>
     (Some (example_entry LittleEndian 0x81ED 0 ''run'')) 0x81A4
     = htonl LittleEndian (S_IFREG OR 0x1ED) \<and>
   ce_mode_from_stat LittleEndian \<lparr>trust_executable_bit = False, has_symlinks = True\<rparr>
     (Some (example_entry LittleEndian 0x81ED 0 ''run'')) 0x81A4
     \<noteq> htonl LittleEndian (S_IFREG OR 0x1A4)"
  by (simp add: ce_mode_from_stat_def ntohl_htonl mode_defs) (simp add: htonl_def bswap32_def)

text \<open>
  Claim C3, amended: when executability tracking is disabled and the fresh stat reports
  a regular file, \<open>ce_mode_from_stat\<close> returns the mode of the existing entry unchanged
  if that entry is a regular file (or, with symlinks unsupported, a symlink), and the
  regular-file mode 0644, in network byte order, otherwise: when there is no entry, or
  the entry is of another kind.
\<close>

theorem C3_mode_without_executable_bit:
  assumes "\<not> trust_executable_bit env" and "S_ISREG mode"
  shows "ce_mode_from_stat h env ce mode =
     (case ce of
        None \<Rightarrow> htonl h (S_IFREG OR 0x1A4)
      | Some e \<Rightarrow>
          if S_ISREG (ntohl h (ce_mode e)) \<or>
             (\<not> has_symlinks env \<and> S_ISLNK (ntohl h (ce_mode e)))
          then ce_mode e
          else htonl h (S_IFREG OR 0x1A4))"
proof -
  have "create_ce_mode h 0x1B6 = htonl h (S_IFREG OR 0x1A4)"
    by (simp add: create_ce_mode_def ce_permissions_def mode_defs)
  then show ?thesis
    using assms by (auto simp add: ce_mode_from_stat_def split: option.splits)
qed

theorem C3_mode_without_executable_bit_witness:
  "\<not> trust_executable_bit \<lparr>trust_executable_bit = False, has_symlinks = True\<rparr> \<and>
   S_ISREG 0x81ED \<and>
   ce_mode_from_stat LittleEndian \<lparr>trust_executable_bit = False, has_symlinks = True\<rparr>
     None 0x81ED = htonl LittleEndian (S_IFREG OR 0x1A4)"
proof -
  have a: "\<not> trust_executable_bit \<lparr>trust_executable_bit = False, has_symlinks = True\<rparr>"
    by simp
  have b: "S_ISREG 0x81ED" by (simp add: mode_defs)
  show ?thesis
    using a b C3_mode_without_executable_bit [OF a b, where h = LittleEndian and ce = None] by simp
qed

text \<open>
  Claim C4: when symlinks are unsupported, for every existing entry whose mode is a
  symlink, \<open>ce_mode_from_stat\<close> returns the entry's mode unchanged, still a symlink, even
  when the fresh stat reports a regular file.
\<close>

theorem C4_symlink_survives:
  assumes "\<not> has_symlinks env" and "S_ISLNK (ntohl h (ce_mode e))" and "S_ISREG mode"
  shows "ce_mode_from_stat h env (Some e) mode = ce_mode e \<and>
         S_ISLNK (ntohl h (ce_mode_from_stat h env (Some e) mode))"
  using assms by (simp add: ce_mode_from_stat_def)

theorem C4_symlink_survives_witness:
  "\<not> has_symlinks \<lparr>trust_executable_bit = True, has_symlinks = False\<rparr> \<and>
   S_ISLNK (ntohl LittleEndian (ce_mode (example_entry LittleEndian 0xA000 0 ''link''))) \<and>
   S_ISREG 0x81A4 \<and>
   ce_mode_from_stat LittleEndian \<lparr>trust_executable_bit = True, has_symlinks = False\<rparr>
     (Some (example_entry LittleEndian 0xA000 0 ''link'')) 0x81A4
     = htonl LittleEndian 0xA000"
proof -
  have a: "\<not> has_symlinks \<lparr>trust_executable_bit = True, has_symlinks = False\<rparr>" by simp
  have b: "S_ISLNK (ntohl LittleEndian (ce_mode (example_entry LittleEndian 0xA000 0 ''link'')))"
    by (simp add: ntohl_htonl mode_defs)
  have c: "S_ISREG 0x81A4" by (simp add: mode_defs)
  show ?thesis
    using a b c C4_symlink_survives [OF a b c] by simp
qed

section \<open>Entry size\<close>

lemma unat_scast_nonneg:
  fixes len :: u32
  assumes "0 \<le> sint len"
  shows "unat (scast len :: size_t) = nat (sint len)"
proof -
  have "sint len < 2 ^ 31" using sint_lt [of len] by simp
  then have "sint len mod 2 ^ 64 = sint len" using assms by simp
  moreover have "uint (scast len :: size_t) = sint len mod 2 ^ 64"
    unfolding scast_eq uint_word_of_int by simp
  ultimately have "uint (scast len :: size_t) = sint len" by simp
  then show ?thesis by (simp only: unat_eq_nat_uint)
qed

lemma unat_align8:
  fixes x :: size_t
  shows "8 dvd unat (x AND NOT 7)" and "unat x \<le> unat (x AND NOT 7) + 7"
    and "unat (x AND NOT 7) \<le> unat x"
proof -
  have seven: "(7 :: size_t) = mask 3" by (simp add: mask_eq_exp_minus_1)
  have "(x AND NOT (mask 3)) AND mask 3 = 0"
    by (rule bit_word_eqI) (simp add: bit_simps)
  then have "2 ^ 3 dvd unat (x AND NOT (mask 3))"
    by (simp only: and_mask_dvd_nat)
  then show "8 dvd unat (x AND NOT 7)" by (simp add: seven)
  have disj: "(x AND NOT 7) AND (x AND 7) = 0"
    unfolding seven by (rule bit_word_eqI) (simp add: bit_simps)
  have "(x AND NOT 7) OR (x AND 7) = x"
    unfolding seven by (rule bit_word_eqI) (auto simp add: bit_simps)
  then have split: "(x AND NOT 7) + (x AND 7) = x"
    using disjunctive_add_eq_or [OF disj] by simp
  have "x AND NOT 7 \<le> x" by (rule word_and_le2)
  then have "x AND NOT 7 \<le> (x AND NOT 7) + (x AND 7)" by (simp only: split)
  then have "unat ((x AND NOT 7) + (x AND 7)) = unat (x AND NOT 7) + unat (x AND 7)"
    by (simp only: unat_plus_simple)
  then have sum: "unat x = unat (x AND NOT 7) + unat (x AND 7)" by (simp only: split)
  have "x AND 7 \<le> 7" by (rule word_and_le1)
  then have "unat (x AND 7) \<le> 7" by (simp add: word_le_nat_alt)
  with sum show "unat x \<le> unat (x AND NOT 7) + 7" by linarith
  from sum show "unat (x AND NOT 7) \<le> unat x" by linarith
qed

lemma unat_entry_sum:
  fixes len :: u32
  assumes "0 \<le> sint len"
  shows "unat (offsetof_cache_entry_name + scast len + 8) = 62 + nat (sint len) + 8"
proof -
  have b: "sint len < 2 ^ 31" using sint_lt [of len] by simp
  have "unat (offsetof_cache_entry_name + scast len + 8)
      = (62 + nat (sint len) + 8) mod 2 ^ 64"
    by (simp add: unat_word_ariths unat_scast_nonneg [OF assms] offsetof_cache_entry_name_def
        mod_simps)
  also have "\<dots> = 62 + nat (sint len) + 8" using b assms by simp
  finally show ?thesis .
qed

text \<open>
  Claim C5: the fixed header is 62 bytes; for every name length \<open>len\<close> that is not
  negative, \<open>cache_entry_size len\<close> is a multiple of 8 and at least the header, the name
  and one more byte, the NUL after the name (and at most 8 more bytes than header and
  name); a 6-byte name gives exactly 72 bytes.
\<close>

theorem C5_entry_size_aligned:
  "offsetof_cache_entry_name = 62 \<and> cache_entry_size 6 = 72 \<and>
   (0 \<le> sint len \<longrightarrow>
      8 dvd unat (cache_entry_size len) \<and>
      unat offsetof_cache_entry_name + nat (sint len) + 1 \<le> unat (cache_entry_size len) \<and>
      unat (cache_entry_size len) \<le> unat offsetof_cache_entry_name + nat (sint len) + 8)"
proof -
  have o: "offsetof_cache_entry_name = 62" by (simp add: offsetof_cache_entry_name_def)
  have s: "cache_entry_size 6 = 72" by (simp add: cache_entry_size_def o)
  have "8 dvd unat (cache_entry_size len) \<and>
      unat offsetof_cache_entry_name + nat (sint len) + 1 \<le> unat (cache_entry_size len) \<and>
      unat (cache_entry_size len) \<le> unat offsetof_cache_entry_name + nat (sint len) + 8"
    if nn: "0 \<le> sint len"
    using unat_align8 [of "offsetof_cache_entry_name + scast len + 8"] unat_entry_sum [OF nn]
    by (simp add: cache_entry_size_def o)
  with o s show ?thesis by blast
qed

theorem C5_entry_size_aligned_witness:
  "0 \<le> sint (13 :: u32) \<and> 8 dvd unat (cache_entry_size 13) \<and>
   unat offsetof_cache_entry_name + nat (sint (13 :: u32)) + 1 \<le> unat (cache_entry_size 13)"
proof -
  have h: "0 \<le> sint (13 :: u32)" by simp
  show ?thesis
    using h C5_entry_size_aligned [of 13] by blast
qed

section \<open>Object identifiers\<close>

lemma memcmp_Some: "n \<le> length a \<Longrightarrow> n \<le> length b \<Longrightarrow> \<exists>r. memcmp a b n = Some r"
proof (induction a b n rule: memcmp.induct)
  case (1 s1 s2) then show ?case by simp
next
  case (2 a s1 b s2 n) then show ?case by simp
qed simp_all

lemma memcmp_zero_iff:
  "n \<le> length a \<Longrightarrow> n \<le> length b \<Longrightarrow> memcmp a b n = Some 0 \<longleftrightarrow> take n a = take n b"
proof (induction a b n rule: memcmp.induct)
  case (2 x s1 y s2 n)
  have "uint x - uint y \<noteq> 0" if "x \<noteq> y" using that by (simp add: word_uint_eq_iff)
  with 2 show ?case by auto
qed simp_all


text \<open>
  Claim C7: object identifiers are compared bytewise over all 20 bytes. For every pair
  of 20-byte digests, \<open>hashcmp\<close> returns (it reads within bounds) and returns 0 if and
  only if the two agree in every byte; \<open>is_null_sha1\<close> is true (1, and 0 otherwise) if
  and only if all 20 bytes are zero.
\<close>

theorem C7_digest_comparison:
  assumes "length a = 20" and "length b = 20"
  shows "(hashcmp a b = Some 0 \<longleftrightarrow> (\<forall>i<20. a ! i = b ! i)) \<and>
         (\<exists>r. hashcmp a b = Some r) \<and>
         (is_null_sha1 a = Some 1 \<longleftrightarrow> (\<forall>i<20. a ! i = 0)) \<and>
         (is_null_sha1 a = Some 1 \<or> is_null_sha1 a = Some 0)"
proof -
  have eq: "hashcmp a x = Some 0 \<longleftrightarrow> (\<forall>i<20. a ! i = x ! i)" if "length x = 20" for x
    using assms that memcmp_zero_iff [of 20 a x]
    by (simp add: hashcmp_def list_eq_iff_nth_eq)
  have ex: "\<exists>r. memcmp a x 20 = Some r" if "length x = 20" for x
    using assms that memcmp_Some [of 20 a x] by simp
  have n: "length null_sha1 = 20" by (simp add: null_sha1_def)
  obtain r where r: "memcmp a null_sha1 20 = Some r" using ex [OF n] by blast
  have "r = 0 \<longleftrightarrow> (\<forall>i<20. a ! i = 0)"
    using eq [OF n] r by (simp add: hashcmp_def null_sha1_def)
  then have "is_null_sha1 a = Some 1 \<longleftrightarrow> (\<forall>i<20. a ! i = 0)"
    using r by (simp add: is_null_sha1_def)
  moreover have "is_null_sha1 a = Some 1 \<or> is_null_sha1 a = Some 0"
    using r by (simp add: is_null_sha1_def)
  ultimately show ?thesis
    using eq [OF assms(2)] ex [OF assms(2)] by (simp add: hashcmp_def)
qed

theorem C7_digest_comparison_witness:
  "length (replicate 20 (0 :: u8)) = 20 \<and> length (replicate 19 0 @ [1 :: u8]) = 20 \<and>
   hashcmp (replicate 20 0) (replicate 19 0 @ [1]) \<noteq> Some 0 \<and>
   is_null_sha1 (replicate 20 0) = Some 1"
proof -
  have a: "length (replicate 20 (0 :: u8)) = 20" by simp
  have b: "length (replicate 19 0 @ [1 :: u8]) = 20" by simp
  have "\<not> (\<forall>i<20. replicate 20 (0 :: u8) ! i = (replicate 19 0 @ [1 :: u8]) ! i)"
    by (auto intro!: exI [of _ 19] simp add: nth_append)
  moreover have "\<forall>i<20. replicate 20 (0 :: u8) ! i = 0" by simp
  ultimately show ?thesis
    using a b C7_digest_comparison [OF a b] by blast
qed

section \<open>Path quoting\<close>

lemma quote_bytes_eq:
  "quote_bytes bs out = out @ concat (map (\<lambda>ch.
      if ch = CHR 0x0A then [CHR 0x5C, CHR ''n'']
      else if ch = CHR 0x0D then [CHR 0x5C, CHR ''r''] else [ch]) bs)"
  by (induction bs arbitrary: out) simp_all

lemma add_dotdots_eq:
  "add_dotdots p out =
     out @ concat (replicate (count_list (takeWhile (\<lambda>c. c \<noteq> NUL) p) CHR ''/'') ''../'')"
  by (induction p arbitrary: out) (simp_all add: NUL_def)

lemma qp_none:
  assumes "\<not> int (length inp) + 1 < (if len < 0 then int (strlen inp) else len)"
  shows "quote_path inp len None = Some (if quote_bytes (take (nat (if len < 0 then int (strlen inp) else len)) (inp @ [NUL])) [] = [] then ''./''
     else quote_bytes (take (nat (if len < 0 then int (strlen inp) else len)) (inp @ [NUL])) [])"
  using assms unfolding quote_path_def Let_def
  by (simp del: quote_bytes.simps)

lemma qp_some:
  assumes "\<not> int (length inp) + 1 < (if len < 0 then int (strlen inp) else len)"
    and "strip_common p inp (if len < 0 then int (strlen inp) else len) 0 = (p', inp', len')"
  shows "quote_path inp len (Some p) = Some (if quote_bytes (take (nat len') (inp' @ [NUL])) (add_dotdots p' []) = [] then ''./''
     else quote_bytes (take (nat len') (inp' @ [NUL])) (add_dotdots p' []))"
  using assms unfolding quote_path_def Let_def
  by (simp del: quote_bytes.simps add_dotdots.simps)


lemma escapes_empty_iff:
  "concat (map (\<lambda>ch.
      if ch = CHR 0x0A then [CHR 0x5C, CHR ''n'']
      else if ch = CHR 0x0D then [CHR 0x5C, CHR ''r''] else [ch]) bs) = [] \<longleftrightarrow> bs = []"
  by (cases bs) simp_all

lemma dotdots_empty_iff:
  "concat (replicate (count_list xs c) ''../'') = [] \<longleftrightarrow> c \<notin> set xs"
proof -
  have "concat (replicate n ''../'') = [] \<longleftrightarrow> n = 0" for n :: nat
    by (cases n) simp_all
  then show ?thesis by (simp add: count_list_0_iff)
qed

lemma take_terminated_empty_iff: "take (nat k) (xs @ [c]) = [] \<longleftrightarrow> k \<le> 0"
  by (cases xs) simp_all


text \<open>
  Claim C9, as stated, fails in its second part: when the prefix has directories left
  after the common part, an input that is consumed entirely yields one \<open>../\<close> for each
  of them, not \<open>./\<close>. Here the input \<open>a/\<close> is quoted relative to the prefix \<open>a/b/\<close>.
\<close>

theorem C9_consumed_input_counterexample:
  "strip_common ''a/b/'' ''a/'' 2 0 = (''b/'', [], 0) \<and>
   quote_path ''a/'' 2 (Some ''a/b/'') = Some ''../'' \<and>
   quote_path ''a/'' 2 (Some ''a/b/'') \<noteq> Some ''./''"
  by (simp add: quote_path_def cstr_at_def NUL_def strip_common.simps)

text \<open>
  Claim C9, amended: \<open>quote_path\<close> never returns an empty buffer. For every input,
  length within the bytes of the input, and prefix, it returns a non-empty buffer: it is
  \<open>./\<close> when prefix-relativization consumes the entire input and leaves no slash in the
  prefix; otherwise it is one \<open>../\<close> for each slash left in the prefix, followed by the
  remaining bytes of the path, where every newline is replaced by a backslash and \<open>n\<close>
  and every carriage return by a backslash and \<open>r\<close>.
\<close>

theorem C9_quote_path_nonempty:
  fixes inp :: string and len :: int and pfx :: "string option"
  defines "len1 \<equiv> (if len < 0 then int (strlen inp) else len)"
  defines "rest \<equiv> (case pfx of None \<Rightarrow> ([], inp, len1) | Some p \<Rightarrow> strip_common p inp len1 0)"
  defines "dots \<equiv>
    concat (replicate (count_list (takeWhile (\<lambda>c. c \<noteq> NUL) (fst rest)) CHR ''/'') ''../'')"
  defines "bytes \<equiv> take (nat (snd (snd rest))) (fst (snd rest) @ [NUL])"
  assumes "len \<le> int (length inp) + 1"
  shows "\<exists>out. quote_path inp len pfx = Some out \<and> out \<noteq> [] \<and>
     (snd (snd rest) \<le> 0 \<and> CHR ''/'' \<notin> set (takeWhile (\<lambda>c. c \<noteq> NUL) (fst rest))
        \<longrightarrow> out = ''./'') \<and>
     (0 < snd (snd rest) \<or> CHR ''/'' \<in> set (takeWhile (\<lambda>c. c \<noteq> NUL) (fst rest))
        \<longrightarrow> out = dots @ concat (map (\<lambda>ch.
               if ch = CHR 0x0A then [CHR 0x5C, CHR ''n'']
               else if ch = CHR 0x0D then [CHR 0x5C, CHR ''r''] else [ch]) bytes))"
proof -
  let ?esc = "\<lambda>ch. if ch = CHR 0x0A then [CHR 0x5C, CHR ''n'']
               else if ch = CHR 0x0D then [CHR 0x5C, CHR ''r''] else [ch]"
  let ?body = "dots @ concat (map ?esc bytes)"
  have "strlen inp \<le> length inp"
    by (simp add: strlen_def length_takeWhile_le)
  then have bound: "\<not> int (length inp) + 1 < (if len < 0 then int (strlen inp) else len)"
    using assms by simp
  obtain p' inp' len' where r: "rest = (p', inp', len')"
    by (cases rest) auto
  let ?q = "quote_bytes (take (nat len') (inp' @ [NUL])) (add_dotdots p' [])"
  have qp: "quote_path inp len pfx = Some (if ?q = [] then ''./'' else ?q)"
  proof (cases pfx)
    case None
    with r have "p' = []" "inp' = inp" "len' = (if len < 0 then int (strlen inp) else len)"
      by (simp_all add: rest_def len1_def)
    with qp_none [OF bound] None show ?thesis by simp
  next
    case (Some p)
    with r have "strip_common p inp (if len < 0 then int (strlen inp) else len) 0
        = (p', inp', len')"
      by (simp add: rest_def len1_def)
    from qp_some [OF bound this] Some show ?thesis by simp
  qed
  have q: "?q = ?body"
    by (simp only: quote_bytes_eq add_dotdots_eq dots_def bytes_def r fst_conv snd_conv
        append_Nil)
  have d: "dots = [] \<longleftrightarrow> CHR ''/'' \<notin> set (takeWhile (\<lambda>c. c \<noteq> NUL) (fst rest))"
    unfolding dots_def by (rule dotdots_empty_iff)
  have b: "bytes = [] \<longleftrightarrow> snd (snd rest) \<le> 0"
    unfolding bytes_def by (rule take_terminated_empty_iff)
  have e: "concat (map ?esc bytes) = [] \<longleftrightarrow> bytes = []"
    by (rule escapes_empty_iff)
  define body where "body = ?body"
  have empty: "body = [] \<longleftrightarrow>
      snd (snd rest) \<le> 0 \<and> CHR ''/'' \<notin> set (takeWhile (\<lambda>c. c \<noteq> NUL) (fst rest))"
    unfolding body_def append_is_Nil_conv d e b by blast
  have res: "quote_path inp len pfx = Some (if body = [] then ''./'' else body)"
    using qp unfolding body_def by (simp only: q)
  show ?thesis
  proof (cases "body = []")
    case True
    with res have "quote_path inp len pfx = Some ''./''" by simp
    moreover from True empty
    have "\<not> (0 < snd (snd rest) \<or> CHR ''/'' \<in> set (takeWhile (\<lambda>c. c \<noteq> NUL) (fst rest)))"
      by linarith
    ultimately show ?thesis by simp
  next
    case False
    with res have "quote_path inp len pfx = Some body" by simp
    moreover from False empty
    have "\<not> (snd (snd rest) \<le> 0 \<and> CHR ''/'' \<notin> set (takeWhile (\<lambda>c. c \<noteq> NUL) (fst rest)))"
      by blast
    ultimately show ?thesis using False unfolding body_def by blast
  qed
qed

theorem C9_quote_path_nonempty_witness:
  "(5 :: int) \<le> int (length (''d/x'' @ [CHR 0x0A] @ ''y'')) + 1 \<and>
   (\<exists>out. quote_path (''d/x'' @ [CHR 0x0A] @ ''y'') 5 (Some ''d/'') = Some out \<and> out \<noteq> []) \<and>
   quote_path (''d/x'' @ [CHR 0x0A] @ ''y'') 5 (Some ''d/'') = Some [CHR ''x'', CHR 0x5C, CHR ''n'', CHR ''y'']"
proof -
  have h: "(5 :: int) \<le> int (length (''d/x'' @ [CHR 0x0A] @ ''y'')) + 1" by simp
  have "\<exists>out. quote_path (''d/x'' @ [CHR 0x0A] @ ''y'') 5 (Some ''d/'') = Some out \<and> out \<noteq> []"
    using C9_quote_path_nonempty [OF h, where pfx = "Some ''d/''"] by blast
  moreover have "quote_path (''d/x'' @ [CHR 0x0A] @ ''y'') 5 (Some ''d/'')
      = Some [CHR ''x'', CHR 0x5C, CHR ''n'', CHR ''y'']"
    by (simp add: quote_path_def cstr_at_def NUL_def strip_common.simps)
  ultimately show ?thesis using h by blast
qed

section \<open>Index lookup\<close>

lemma key_less_irrefl: "\<not> key_less a a"
  by (simp add: key_less_def)

lemma key_less_trans: "key_less a b \<Longrightarrow> key_less b c \<Longrightarrow> key_less a c"
  by (auto simp add: key_less_def)

lemma key_less_asym: "key_less a b \<Longrightarrow> \<not> key_less b a"
  by (auto simp add: key_less_def)

lemma key_less_total: "a \<noteq> b \<Longrightarrow> \<not> key_less a b \<Longrightarrow> key_less b a"
  by (cases a; cases b) (auto simp add: key_less_def)

lemma sorted_keys_nth:
  "sorted_wrt key_less ks \<Longrightarrow> i < j \<Longrightarrow> j < length ks \<Longrightarrow> key_less (ks ! i) (ks ! j)"
  by (rule sorted_wrt_nth_less)

lemma name_pos_search_correct:
  assumes "sorted_wrt key_less ks" and "first \<le> lst" and "lst \<le> length ks"
    and "\<forall>i<first. key_less (ks ! i) k"
    and "\<forall>i. lst \<le> i \<and> i < length ks \<longrightarrow> key_less k (ks ! i)"
  shows "(\<exists>i<length ks. name_pos_search ks k first lst = int i \<and> ks ! i = k) \<or>
         (\<exists>p\<le>length ks. name_pos_search ks k first lst = NOT (int p) \<and>
            (\<forall>i<p. key_less (ks ! i) k) \<and>
            (\<forall>i. p \<le> i \<and> i < length ks \<longrightarrow> key_less k (ks ! i)))"
  using assms
proof (induction ks k first lst rule: name_pos_search.induct)
  case (1 ks k first lst)
  show ?case
  proof (cases "first < lst")
    case False
    with "1.prems" have "first = lst" by simp
    with False "1.prems" show ?thesis
      by (subst name_pos_search.simps) auto
  next
    case True
    define nxt where "nxt = (lst + first) div 2"
    have bounds: "first \<le> nxt" "nxt < lst" "nxt < length ks"
      using True "1.prems"(3) by (simp_all add: nxt_def)
    show ?thesis
    proof (cases "k = ks ! nxt")
      case eq: True
      have "name_pos_search ks k first lst = int nxt"
        using True eq by (subst name_pos_search.simps) (simp add: nxt_def Let_def)
      with eq bounds show ?thesis by blast
    next
      case ne: False
      show ?thesis
      proof (cases "key_less k (ks ! nxt)")
        case lt: True
        have unfold: "name_pos_search ks k first lst = name_pos_search ks k first nxt"
          using True ne lt by (subst name_pos_search.simps) (simp add: nxt_def Let_def)
        have upper: "\<forall>i. nxt \<le> i \<and> i < length ks \<longrightarrow> key_less k (ks ! i)"
        proof (intro allI impI)
          fix i assume i: "nxt \<le> i \<and> i < length ks"
          show "key_less k (ks ! i)"
          proof (cases "i = nxt")
            case True with lt show ?thesis by simp
          next
            case False
            with i have "key_less (ks ! nxt) (ks ! i)"
              using sorted_keys_nth [OF "1.prems"(1), of nxt i] by simp
            with lt show ?thesis by (rule key_less_trans)
          qed
        qed
        have "nxt \<le> length ks" using bounds by simp
        from "1.IH"(1) [OF True nxt_def ne lt "1.prems"(1) bounds(1) this "1.prems"(4) upper]
        show ?thesis by (simp only: unfold)
      next
        case ge: False
        have gt: "key_less (ks ! nxt) k"
          using key_less_total [OF ne ge] .
        have unfold: "name_pos_search ks k first lst = name_pos_search ks k (nxt + 1) lst"
          using True ne ge by (subst name_pos_search.simps) (simp add: nxt_def Let_def)
        have lower: "\<forall>i<nxt + 1. key_less (ks ! i) k"
        proof (intro allI impI)
          fix i assume i: "i < nxt + 1"
          show "key_less (ks ! i) k"
          proof (cases "i = nxt")
            case True with gt show ?thesis by simp
          next
            case False
            with i bounds have "key_less (ks ! i) (ks ! nxt)"
              using sorted_keys_nth [OF "1.prems"(1), of i nxt] by simp
            then show ?thesis using gt by (rule key_less_trans)
          qed
        qed
        have "nxt + 1 \<le> lst" using bounds by simp
        from "1.IH"(2) [OF True nxt_def ne ge "1.prems"(1) this "1.prems"(3) lower "1.prems"(5)]
        show ?thesis by (simp only: unfold)
      qed
    qed
  qed
qed


lemma count_less_split:
  assumes "\<forall>x\<in>set (take p ks). key_less x k" and "\<forall>y\<in>set (drop p ks). key_less k y"
    and "p \<le> length ks"
  shows "length (filter (\<lambda>x. key_less x k) ks) = p"
proof -
  have a: "filter (\<lambda>x. key_less x k) (take p ks) = take p ks"
    using assms(1) by (simp add: filter_id_conv)
  have b: "filter (\<lambda>x. key_less x k) (drop p ks) = []"
    using assms(2) by (auto simp add: filter_empty_conv dest: key_less_asym)
  have "filter (\<lambda>x. key_less x k) ks
      = filter (\<lambda>x. key_less x k) (take p ks) @ filter (\<lambda>x. key_less x k) (drop p ks)"
    by (simp only: filter_append [symmetric] append_take_drop_id)
  then show ?thesis using assms(3) by (simp add: a b)
qed

lemma take_below:
  assumes "\<forall>i<p. key_less (ks ! i) k" and "p \<le> length ks"
  shows "\<forall>x\<in>set (take p ks). key_less x k"
proof
  fix x assume "x \<in> set (take p ks)"
  then obtain i where "i < length (take p ks)" and "take p ks ! i = x"
    by (auto simp add: in_set_conv_nth)
  with assms show "key_less x k" by auto
qed

lemma drop_above:
  assumes "\<forall>i. p \<le> i \<and> i < length ks \<longrightarrow> key_less k (ks ! i)"
  shows "\<forall>y\<in>set (drop p ks). key_less k y"
proof
  fix y assume "y \<in> set (drop p ks)"
  then obtain i where i: "i < length (drop p ks)" and "drop p ks ! i = y"
    by (auto simp add: in_set_conv_nth)
  then have "y = ks ! (p + i)" by simp
  moreover have "p \<le> p + i \<and> p + i < length ks" using i by simp
  ultimately show "key_less k y" using assms by blast
qed

lemma insert_keeps_sorted:
  assumes "sorted_wrt key_less ks"
    and "\<forall>x\<in>set (take p ks). key_less x k" and "\<forall>y\<in>set (drop p ks). key_less k y"
  shows "sorted_wrt key_less (take p ks @ [k] @ drop p ks)"
proof -
  have "sorted_wrt key_less (take p ks @ drop p ks)" using assms(1) by simp
  then have "sorted_wrt key_less (take p ks) \<and> sorted_wrt key_less (drop p ks) \<and>
    (\<forall>x\<in>set (take p ks). \<forall>y\<in>set (drop p ks). key_less x y)"
    unfolding sorted_wrt_append .
  with assms(2,3) show ?thesis
    by (simp add: sorted_wrt_append)
qed

lemma sorted_insert_position:
  assumes "sorted_wrt key_less (take p ks @ [k] @ drop p ks)" and "p \<le> length ks"
  shows "length (filter (\<lambda>x. key_less x k) ks) = p"
proof -
  from assms(1) have "\<forall>x\<in>set (take p ks). key_less x k" "\<forall>y\<in>set (drop p ks). key_less k y"
    by (auto simp add: sorted_wrt_append)
  then show ?thesis using assms(2) by (rule count_less_split)
qed

lemma insertion_point_keys:
  "insertion_point h istate k
     = length (filter (\<lambda>x. key_less x k) (map (entry_key h) (cache istate)))"
  by (simp add: insertion_point_def filter_map comp_def)

lemma index_name_pos_cases:
  fixes h istate nm namelen
  defines "ks \<equiv> map (entry_key h) (cache istate)"
  defines "k \<equiv> (take (nat namelen) nm, 0 :: nat)"
  defines "ip \<equiv> insertion_point h istate k"
  assumes "index_sorted h istate"
  shows "(\<exists>i<length ks. index_name_pos h istate nm namelen = int i \<and> ks ! i = k) \<or>
         (k \<notin> set ks \<and> ip \<le> length ks \<and> index_name_pos h istate nm namelen = NOT (int ip) \<and>
            (\<forall>i<ip. key_less (ks ! i) k) \<and>
            (\<forall>i. ip \<le> i \<and> i < length ks \<longrightarrow> key_less k (ks ! i)))"
proof -
  have srt: "sorted_wrt key_less ks"
    using assms by (simp add: index_sorted_def)
  have pos: "index_name_pos h istate nm namelen = name_pos_search ks k 0 (length ks)"
    by (simp add: index_name_pos_def ks_def k_def)
  have "(\<exists>i<length ks. name_pos_search ks k 0 (length ks) = int i \<and> ks ! i = k) \<or>
      (\<exists>p\<le>length ks. name_pos_search ks k 0 (length ks) = NOT (int p) \<and>
         (\<forall>i<p. key_less (ks ! i) k) \<and>
         (\<forall>i. p \<le> i \<and> i < length ks \<longrightarrow> key_less k (ks ! i)))"
    by (rule name_pos_search_correct [OF srt]) auto
  then consider i where "i < length ks" "name_pos_search ks k 0 (length ks) = int i" "ks ! i = k"
    | p where "p \<le> length ks" "name_pos_search ks k 0 (length ks) = NOT (int p)"
        "\<forall>i<p. key_less (ks ! i) k" "\<forall>i. p \<le> i \<and> i < length ks \<longrightarrow> key_less k (ks ! i)"
    by auto
  then show ?thesis
  proof cases
    case 1
    then show ?thesis using pos by auto
  next
    case 2
    have "length (filter (\<lambda>x. key_less x k) ks) = p"
      using take_below [OF 2(3) 2(1)] drop_above [OF 2(4)] 2(1) by (rule count_less_split)
    then have ip: "ip = p" by (simp add: ip_def insertion_point_keys ks_def)
    have "k \<notin> set ks"
    proof
      assume "k \<in> set ks"
      then obtain j where j: "j < length ks" "ks ! j = k" by (auto simp add: in_set_conv_nth)
      show False
      proof (cases "j < p")
        case True
        with 2(3) j show False by (auto simp add: key_less_irrefl)
      next
        case False
        with 2(4) j have "key_less k (ks ! j)" by auto
        with j show False by (simp add: key_less_irrefl)
      qed
    qed
    with 2 ip pos show ?thesis by auto
  qed
qed


lemma entry_key_stage0:
  "entry_key h ce = (n, 0) \<longleftrightarrow> name ce = n \<and> ce_stage h ce = 0"
  by (auto simp add: entry_key_def unat_eq_0)

lemma keys_insert_at:
  "map (entry_key h) (cache (insert_at p ce istate))
     = take p (map (entry_key h) (cache istate)) @ [entry_key h ce] @
       drop p (map (entry_key h) (cache istate))"
  by (simp add: insert_at_def take_map drop_map)

text \<open>
  Claim C6, for an index that is sorted by (name, stage), with \<open>index_name_pos\<close> as the
  spec describes it. If an entry with the queried name exists at stage 0, the lookup
  returns a non-negative position, within the index, that holds an entry with that name
  at stage 0. If none exists, it returns the bitwise complement, which is minus the
  insertion point minus one, of the number of entries that sort before the name at
  stage 0: inserting an entry of that name and stage 0 there keeps the index sorted, and
  no other position does.
\<close>

theorem C6_lookup:
  fixes h istate nm namelen
  defines "n \<equiv> take (nat namelen) nm"
  defines "pos \<equiv> index_name_pos h istate nm namelen"
  defines "ip \<equiv> insertion_point h istate (n, 0)"
  assumes srt: "index_sorted h istate"
  shows "((\<exists>ce\<in>set (cache istate). name ce = n \<and> ce_stage h ce = 0) \<longrightarrow>
            0 \<le> pos \<and> nat pos < length (cache istate) \<and>
            name (cache istate ! nat pos) = n \<and> ce_stage h (cache istate ! nat pos) = 0) \<and>
         (\<not> (\<exists>ce\<in>set (cache istate). name ce = n \<and> ce_stage h ce = 0) \<longrightarrow>
            pos = NOT (int ip) \<and> pos = - int ip - 1 \<and> ip \<le> length (cache istate) \<and>
            (\<forall>ce. name ce = n \<and> ce_stage h ce = 0 \<longrightarrow>
               index_sorted h (insert_at ip ce istate) \<and>
               (\<forall>p\<le>length (cache istate). index_sorted h (insert_at p ce istate) \<longrightarrow> p = ip)))"
proof -
  define ks where "ks = map (entry_key h) (cache istate)"
  define k where "k = (n, 0 :: nat)"
  have mem: "k \<in> set ks \<longleftrightarrow> (\<exists>ce\<in>set (cache istate). name ce = n \<and> ce_stage h ce = 0)"
  proof -
    have "k \<in> set ks \<longleftrightarrow> (\<exists>ce\<in>set (cache istate). entry_key h ce = (n, 0))"
      by (force simp add: ks_def k_def)
    then show ?thesis by (simp only: entry_key_stage0)
  qed
  have len: "length ks = length (cache istate)" by (simp add: ks_def)
  have sk: "sorted_wrt key_less ks" using srt by (simp add: index_sorted_def ks_def)
  from index_name_pos_cases [OF srt, of nm namelen]
  consider (found) i where "i < length ks" "pos = int i" "ks ! i = k"
    | (absent) "k \<notin> set ks" "ip \<le> length ks" "pos = NOT (int ip)"
        "\<forall>i<ip. key_less (ks ! i) k" "\<forall>i. ip \<le> i \<and> i < length ks \<longrightarrow> key_less k (ks ! i)"
    unfolding ks_def k_def pos_def ip_def n_def by blast
  then show ?thesis
  proof cases
    case found
    then have "k \<in> set ks" by auto
    moreover have "entry_key h (cache istate ! i) = (n, 0)"
      using found by (simp add: ks_def k_def)
    then have "name (cache istate ! i) = n \<and> ce_stage h (cache istate ! i) = 0"
      by (simp only: entry_key_stage0)
    moreover have "0 \<le> pos" "nat pos = i" using found(2) by simp_all
    ultimately show ?thesis using found(1) mem len by (simp only:) blast
  next
    case absent
    have below: "\<forall>x\<in>set (take ip ks). key_less x k"
      using take_below [OF absent(4) absent(2)] .
    have above: "\<forall>y\<in>set (drop ip ks). key_less k y"
      using drop_above [OF absent(5)] .
    have ins: "index_sorted h (insert_at ip ce istate) \<and>
        (\<forall>p\<le>length (cache istate). index_sorted h (insert_at p ce istate) \<longrightarrow> p = ip)"
      if ce: "name ce = n \<and> ce_stage h ce = 0" for ce
    proof -
      have key: "entry_key h ce = k"
        using ce by (simp only: k_def entry_key_stage0)
      have "index_sorted h (insert_at ip ce istate)"
        using insert_keeps_sorted [OF sk below above]
        by (simp only: index_sorted_def keys_insert_at key ks_def)
      moreover have "p = ip"
        if "p \<le> length (cache istate)" "index_sorted h (insert_at p ce istate)" for p
      proof -
        from that(2) have "sorted_wrt key_less (take p ks @ [k] @ drop p ks)"
          by (simp only: index_sorted_def keys_insert_at key ks_def)
        from sorted_insert_position [OF this] that(1) len
        have "length (filter (\<lambda>x. key_less x k) ks) = p" by simp
        moreover have "length (filter (\<lambda>x. key_less x k) ks) = ip"
          using below above absent(2) by (rule count_less_split)
        ultimately show ?thesis by simp
      qed
      ultimately show ?thesis by blast
    qed
    have "NOT (int ip) = - int ip - 1" by (simp only: not_int_def)
    then have neg: "pos = - int ip - 1" using absent(3) by (simp only:)
    have nex: "\<not> (\<exists>ce\<in>set (cache istate). name ce = n \<and> ce_stage h ce = 0)"
      using absent(1) mem by blast
    have "ip \<le> length (cache istate)" using absent(2) len by (simp only:)
    with nex neg absent(3) ins show ?thesis by blast
  qed
qed

theorem C6_lookup_witness:
  "index_sorted LittleEndian (example_index LittleEndian) \<and>
   (\<exists>ce\<in>set (cache (example_index LittleEndian)).
      name ce = take (nat 1) ''a'' \<and> ce_stage LittleEndian ce = 0) \<and>
   0 \<le> index_name_pos LittleEndian (example_index LittleEndian) ''a'' 1 \<and>
   \<not> (\<exists>ce\<in>set (cache (example_index LittleEndian)).
      name ce = take (nat 1) ''c'' \<and> ce_stage LittleEndian ce = 0) \<and>
   index_name_pos LittleEndian (example_index LittleEndian) ''c'' 1 = - 2"
proof -
  have a: "index_sorted LittleEndian (example_index LittleEndian)"
    by (simp add: example_eval)
  have e: "\<exists>ce\<in>set (cache (example_index LittleEndian)).
      name ce = take (nat 1) ''a'' \<and> ce_stage LittleEndian ce = 0"
    by (simp add: example_eval)
  have ne: "\<not> (\<exists>ce\<in>set (cache (example_index LittleEndian)).
      name ce = take (nat 1) ''c'' \<and> ce_stage LittleEndian ce = 0)"
    by (simp add: example_eval)
  note found = C6_lookup [OF a, where nm = "''a''" and namelen = 1, THEN conjunct1, THEN mp, OF e]
  note absent = C6_lookup [OF a, where nm = "''c''" and namelen = 1, THEN conjunct2, THEN mp, OF ne]
  have p1: "0 \<le> index_name_pos LittleEndian (example_index LittleEndian) ''a'' 1"
    using found by (rule conjunct1)
  have ip: "insertion_point LittleEndian (example_index LittleEndian) (take (nat 1) ''c'', 0) = 1"
    by (simp add: insertion_point_def example_eval)
  have "index_name_pos LittleEndian (example_index LittleEndian) ''c'' 1
      = - int (insertion_point LittleEndian (example_index LittleEndian) (take (nat 1) ''c'', 0)) - 1"
    using absent by (rule conjunct2 [THEN conjunct1])
  then have p2: "index_name_pos LittleEndian (example_index LittleEndian) ''c'' 1 = - 2"
    by (simp only: ip)
  show ?thesis by (intro conjI a e p1 ne p2)
qed

section \<open>Untracked files\<close>



















end
